theory Spec2Isabelle
  imports Complex_Main
begin

section \<open>Audio transcription with speaker diarization: the model of app.py\<close>

text \<open>
  The program is one Python file, \<^verbatim>\<open>app.py\<close>: a Flask endpoint \<^verbatim>\<open>upload\<close>, the
  check \<^verbatim>\<open>allowed_file\<close>, and \<^verbatim>\<open>process_audio_with_diarization\<close>, whose last part
  (lines 103 to 156) groups the recognised words into speaker turns.

  Conventions of the model.
  \<^item> A Python \<^verbatim>\<open>str\<close> is a \<open>string\<close>; a \<open>char\<close> stands for the code point of the
    same number, so the strings of the model are the Python strings over the code
    points below 256.
  \<^item> A Python \<^verbatim>\<open>float\<close> is a \<open>rat\<close>: arithmetic is exact, and \<^verbatim>\<open>round(x, 2)\<close>
    is rounding to the nearest hundredth, ties to the even one, which is what CPython
    does on the exact value of its argument.
  \<^item> A raised exception is the left summand of the result.
\<close>

subsection \<open>Exceptions and indexing\<close>

datatype py_error = IndexError | OtherError string

text \<open>\<^verbatim>\<open>str(e)\<close> of the handler in \<^verbatim>\<open>upload\<close>.\<close>

fun str_error :: "py_error \<Rightarrow> string" where
  "str_error IndexError = ''list index out of range''"
| "str_error (OtherError msg) = msg"

text \<open>
  \<^verbatim>\<open>xs[i]\<close>: an index below zero counts from the end of the list, and an index that
  falls outside the list after that raises \<^verbatim>\<open>IndexError\<close>.
\<close>

definition py_index :: "'a list \<Rightarrow> int \<Rightarrow> py_error + 'a" where
  "py_index xs i =
     (if 0 \<le> i \<and> i < int (length xs) then Inr (xs ! nat i)
      else if i < 0 \<and> - int (length xs) \<le> i then Inr (xs ! nat (int (length xs) + i))
      else Inl IndexError)"

subsection \<open>Strings\<close>

text \<open>
  \<^verbatim>\<open>str.isspace\<close> on one character: the white space of Unicode below code point 256
  is the range 9 to 13, the range 28 to 32, and the code points 133 and 160.
\<close>

definition isspace :: "char \<Rightarrow> bool" where
  "isspace c =
     (let n = (of_char c :: nat)
      in (9 \<le> n \<and> n \<le> 13) \<or> (28 \<le> n \<and> n \<le> 32) \<or> n = 133 \<or> n = 160)"

text \<open>\<^verbatim>\<open>s.strip()\<close> removes the white space at both ends.\<close>

definition strip :: "string \<Rightarrow> string" where
  "strip s = rev (dropWhile isspace (rev (dropWhile isspace s)))"

text \<open>\<^verbatim>\<open>sep.join(xs)\<close>.\<close>

fun join :: "string \<Rightarrow> string list \<Rightarrow> string" where
  "join sep [] = []"
| "join sep [x] = x"
| "join sep (x # y # ys) = x @ sep @ join sep (y # ys)"

text \<open>
  \<^verbatim>\<open>str.lower\<close> on one character below code point 256: the letters A to Z and the
  capital letters of the range 192 to 222, the multiplication sign 215 apart, move up
  by 32; every other character stays.
\<close>

definition lower_char :: "char \<Rightarrow> char" where
  "lower_char c =
     (let n = (of_char c :: nat)
      in if (65 \<le> n \<and> n \<le> 90) \<or> (192 \<le> n \<and> n \<le> 222 \<and> n \<noteq> 215)
         then char_of (n + 32) else c)"

definition lower :: "string \<Rightarrow> string" where
  "lower s = map lower_char s"

text \<open>
  \<^verbatim>\<open>s.rsplit(sep, 1)\<close> for a separator of one character: the string is cut at the last
  occurrence of the separator, and is returned whole when there is none.
\<close>

definition rsplit1 :: "char \<Rightarrow> string \<Rightarrow> string list" where
  "rsplit1 sep s =
     (if sep \<in> set s
      then [rev (tl (dropWhile (\<lambda>c. c \<noteq> sep) (rev s))), rev (takeWhile (\<lambda>c. c \<noteq> sep) (rev s))]
      else [s])"

text \<open>\<^verbatim>\<open>str(n)\<close> of an integer, as the f-string \<^verbatim>\<open>f"Speaker {current_speaker}"\<close> formats it.\<close>

definition digit_char :: "nat \<Rightarrow> char" where
  "digit_char d = ''0123456789'' ! d"

fun str_nat :: "nat \<Rightarrow> string" where
  "str_nat n =
     (if n < 10 then [digit_char n]
      else str_nat (n div 10) @ [digit_char (n mod 10)])"

definition str_int :: "int \<Rightarrow> string" where
  "str_int i = (if i < 0 then CHR ''-'' # str_nat (nat (- i)) else str_nat (nat i))"

subsection \<open>Numbers\<close>

definition round_half_even :: "rat \<Rightarrow> int" where
  "round_half_even y =
     (let f = \<lfloor>y\<rfloor>; d = y - of_int f
      in if d < 1 / 2 then f
         else if 1 / 2 < d then f + 1
         else if even f then f else f + 1)"

text \<open>\<^verbatim>\<open>round(x, 2)\<close>.\<close>

definition round2 :: "rat \<Rightarrow> rat" where
  "round2 x = of_int (round_half_even (x * 100)) / 100"

subsection \<open>Data\<close>

text \<open>
  One word of the recognition result (\<^verbatim>\<open>WordInfo\<close>): \<open>start_time\<close> and \<open>end_time\<close>
  hold the value of \<^verbatim>\<open>total_seconds()\<close> of the word's offsets.
\<close>

record recognized_word =
  word :: string
  speaker_tag :: int
  start_time :: rat
  end_time :: rat

text \<open>
  One entry of the returned list, the dictionary with the keys \<^verbatim>\<open>speaker\<close>,
  \<^verbatim>\<open>start\<close>, \<^verbatim>\<open>end\<close> and \<^verbatim>\<open>text\<close>.
\<close>

record segment =
  seg_speaker :: string
  seg_start :: rat
  seg_end :: rat
  seg_text :: string

record speech_alternative =
  transcript :: string
  words :: "recognized_word list"

record speech_result =
  alternatives :: "speech_alternative list"

subsection \<open>Grouping the words by speaker (lines 103 to 156)\<close>

text \<open>The local variables that the loop of line 121 updates.\<close>

record loop_state =
  segments :: "segment list"
  current_speaker :: int
  current_start :: rat
  current_words :: "string list"

text \<open>The dictionary appended at lines 129 and 147.\<close>

definition close_segment :: "loop_state \<Rightarrow> rat \<Rightarrow> segment" where
  "close_segment st end_t =
     \<lparr>seg_speaker = ''Speaker '' @ str_int (current_speaker st),
      seg_start = round2 (current_start st),
      seg_end = round2 end_t,
      seg_text = strip (join '' '' (current_words st))\<rparr>"

text \<open>
  The loop \<^verbatim>\<open>for idx, w in enumerate(words)\<close>: \<open>ws\<close> is the whole list, which line 127
  indexes, \<open>idx\<close> the index of the next word and the third argument the words still to
  visit.
\<close>

fun seg_loop :: "recognized_word list \<Rightarrow> nat \<Rightarrow> recognized_word list \<Rightarrow> loop_state
    \<Rightarrow> py_error + loop_state" where
  "seg_loop ws idx [] st = Inr st"
| "seg_loop ws idx (w # rest) st =
     (if speaker_tag w \<noteq> current_speaker st then
        (case py_index ws (int idx - 1) of
           Inl e \<Rightarrow> Inl e
         | Inr last_word \<Rightarrow>
             seg_loop ws (Suc idx) rest
               \<lparr>segments = segments st @ [close_segment st (end_time last_word)],
                current_speaker = speaker_tag w,
                current_start = start_time w,
                current_words = [word w]\<rparr>)
      else seg_loop ws (Suc idx) rest (st\<lparr>current_words := current_words st @ [word w]\<rparr>))"

text \<open>
  Lines 103 to 156, from the word list, the transcript of the alternative and the
  duration of the clip. The source has this code inline at the end of
  \<^verbatim>\<open>process_audio_with_diarization\<close>.
\<close>

definition build_segments :: "recognized_word list \<Rightarrow> string \<Rightarrow> rat \<Rightarrow> py_error + segment list" where
  "build_segments ws fallback_transcript duration_sec =
     (if ws = [] then
        Inr [\<lparr>seg_speaker = ''unknown'', seg_start = 0, seg_end = duration_sec,
              seg_text = strip fallback_transcript\<rparr>]
      else
        (case py_index ws 0 of
           Inl e \<Rightarrow> Inl e
         | Inr first_word \<Rightarrow>
            (case seg_loop ws 0 ws
                    \<lparr>segments = [], current_speaker = speaker_tag first_word,
                     current_start = start_time first_word, current_words = []\<rparr> of
               Inl e \<Rightarrow> Inl e
             | Inr st \<Rightarrow>
                (case py_index ws (- 1) of
                   Inl e \<Rightarrow> Inl e
                 | Inr last_word \<Rightarrow>
                     Inr (segments st @ [close_segment st (end_time last_word)])))))"

subsection \<open>The recognition pipeline\<close>

text \<open>
  \<^verbatim>\<open>process_audio_with_diarization\<close>. Lines 56 to 93 normalise the audio with pydub,
  read it back and call the recognition service; they are the argument
  \<open>normalize_and_recognize\<close>, which from the input path yields the duration of the clip
  and \<^verbatim>\<open>response.results\<close>, or raises. The rest is lines 95 to 156.
\<close>

definition process_audio_with_diarization ::
    "(string \<Rightarrow> py_error + rat \<times> speech_result list) \<Rightarrow> string \<Rightarrow> py_error + segment list" where
  "process_audio_with_diarization normalize_and_recognize input_path =
     (case normalize_and_recognize input_path of
        Inl e \<Rightarrow> Inl e
      | Inr (duration_sec, results) \<Rightarrow>
          if results = [] then Inr []
          else
            (case py_index results (- 1) of
               Inl e \<Rightarrow> Inl e
             | Inr result \<Rightarrow>
                (case py_index (alternatives result) 0 of
                   Inl e \<Rightarrow> Inl e
                 | Inr alternative \<Rightarrow>
                     build_segments (words alternative) (transcript alternative) duration_sec)))"

subsection \<open>The upload endpoint\<close>

definition ALLOWED_EXTENSIONS :: "string set" where
  "ALLOWED_EXTENSIONS = {''wav'', ''mp3'', ''flac'', ''m4a''}"

definition allowed_file :: "string \<Rightarrow> py_error + bool" where
  "allowed_file fname =
     (if CHR ''.'' \<in> set fname then
        (case py_index (rsplit1 (CHR ''.'') fname) 1 of
           Inl e \<Rightarrow> Inl e
         | Inr ext \<Rightarrow> Inr (lower ext \<in> ALLOWED_EXTENSIONS))
      else Inr False)"

text \<open>The uploaded file (\<^verbatim>\<open>FileStorage\<close>) and the request, as far as the endpoint reads them.\<close>

record file_storage =
  filename :: string

record request =
  files :: "string \<rightharpoonup> file_storage"

text \<open>
  What the endpoint calls outside this file: \<^verbatim>\<open>file.save(filepath)\<close>, and lines 56 to 93
  of \<^verbatim>\<open>process_audio_with_diarization\<close>.
\<close>

record env =
  save :: "file_storage \<Rightarrow> string \<Rightarrow> py_error + unit"
  normalize_and_recognize :: "string \<Rightarrow> py_error + rat \<times> speech_result list"

text \<open>The JSON body of a response: \<^verbatim>\<open>{"error": msg}\<close> or \<^verbatim>\<open>{"segments": segments}\<close>.\<close>

datatype body = ErrorBody string | SegmentsBody "segment list"

definition UPLOAD_FOLDER :: string where
  "UPLOAD_FOLDER = ''uploads''"

text \<open>
  \<^verbatim>\<open>os.path.join(a, b)\<close> on POSIX, for a first part that does not end with a slash: a
  second part that starts with a slash replaces the first.
\<close>

definition path_join :: "string \<Rightarrow> string \<Rightarrow> string" where
  "path_join a b = (if b \<noteq> [] \<and> hd b = CHR ''/'' then b else a @ ''/'' @ b)"

text \<open>
  \<^verbatim>\<open>upload\<close>: the body and the status of the response, or the exception that leaves
  the function (the call of \<^verbatim>\<open>allowed_file\<close> and the save are outside the
  \<^verbatim>\<open>try\<close>). \<^verbatim>\<open>jsonify\<close> alone answers with status 200.
\<close>

definition upload :: "env \<Rightarrow> request \<Rightarrow> py_error + body \<times> nat" where
  "upload env req =
     (case files req ''file'' of
        None \<Rightarrow> Inr (ErrorBody ''No file part in request'', 400)
      | Some file \<Rightarrow>
          if filename file = [] then Inr (ErrorBody ''No file selected'', 400)
          else
            (case allowed_file (filename file) of
               Inl e \<Rightarrow> Inl e
             | Inr ok \<Rightarrow>
                 if \<not> ok then Inr (ErrorBody ''Unsupported file type'', 400)
                 else
                   (let filepath = path_join UPLOAD_FOLDER (filename file)
                    in case save env file filepath of
                         Inl e \<Rightarrow> Inl e
                       | Inr u \<Rightarrow>
                          (case process_audio_with_diarization (normalize_and_recognize env) filepath of
                             Inr segs \<Rightarrow> Inr (SegmentsBody segs, 200)
                           | Inl e \<Rightarrow> Inr (ErrorBody (str_error e), 500)))))"

subsection \<open>The reference algorithm of the specification\<close>

text \<open>
  The specification describes the grouping differently from the code: the current run
  starts with the first word's speaker tag, its start time and a buffer that already
  holds the first word's text, and the scan visits the words after the first. A word
  with the run's tag is appended to the buffer; any other word closes the run, at the
  end time of the word just before it, and starts a new run. The last run is closed at
  the end time of the last word. Both times of a segment are rounded to two decimals.
  \<open>spec_scan prev rest tag start buf\<close> is that scan, \<open>prev\<close> being the word visited
  last.
\<close>

definition spec_close :: "int \<Rightarrow> rat \<Rightarrow> rat \<Rightarrow> string list \<Rightarrow> segment" where
  "spec_close tag start_t end_t buf =
     \<lparr>seg_speaker = ''Speaker '' @ str_int tag, seg_start = round2 start_t,
      seg_end = round2 end_t, seg_text = strip (join '' '' buf)\<rparr>"

fun spec_scan :: "recognized_word \<Rightarrow> recognized_word list \<Rightarrow> int \<Rightarrow> rat \<Rightarrow> string list
    \<Rightarrow> segment list" where
  "spec_scan prev [] tag start_t buf = [spec_close tag start_t (end_time prev) buf]"
| "spec_scan prev (w # rest) tag start_t buf =
     (if speaker_tag w = tag then spec_scan w rest tag start_t (buf @ [word w])
      else spec_close tag start_t (end_time prev) buf
           # spec_scan w rest (speaker_tag w) (start_time w) [word w])"

definition spec_build_segments :: "recognized_word list \<Rightarrow> string \<Rightarrow> rat \<Rightarrow> segment list" where
  "spec_build_segments ws fallback_transcript total_duration =
     (case ws of
        [] \<Rightarrow> [\<lparr>seg_speaker = ''unknown'', seg_start = 0, seg_end = total_duration,
                seg_text = strip fallback_transcript\<rparr>]
      | w # rest \<Rightarrow> spec_scan w rest (speaker_tag w) (start_time w) [word w])"

subsection \<open>Runs of one speaker\<close>

text \<open>
  \<open>runs ws\<close> cuts the word list at every change of speaker tag; \<open>segment_of_run\<close> is
  the segment that a run stands for.
\<close>

fun runs :: "recognized_word list \<Rightarrow> recognized_word list list" where
  "runs [] = []"
| "runs (w # ws) =
     (case runs ws of
        [] \<Rightarrow> [[w]]
      | r # rs \<Rightarrow> if speaker_tag w = speaker_tag (hd r) then (w # r) # rs else [w] # r # rs)"

definition segment_of_run :: "recognized_word list \<Rightarrow> segment" where
  "segment_of_run r =
     \<lparr>seg_speaker = ''Speaker '' @ str_int (speaker_tag (hd r)),
      seg_start = round2 (start_time (hd r)),
      seg_end = round2 (end_time (last r)),
      seg_text = strip (join '' '' (map word r))\<rparr>"

section \<open>Properties of the model\<close>

subsection \<open>Indexing\<close>

lemma py_index_pred:
  "pre \<noteq> [] \<Longrightarrow> py_index (pre @ rest) (int (length pre) - 1) = Inr (last pre)"
  by (cases pre rule: rev_cases) (simp_all add: py_index_def nth_append)

lemma py_index_first: "xs \<noteq> [] \<Longrightarrow> py_index xs 0 = Inr (hd xs)"
  by (cases xs) (simp_all add: py_index_def)

lemma py_index_last: "xs \<noteq> [] \<Longrightarrow> py_index xs (- 1) = Inr (last xs)"
  by (simp add: py_index_def last_conv_nth nat_diff_distrib' Suc_leI)

subsection \<open>The loop of the code against the scan of the specification\<close>

lemma close_segment_spec:
  "close_segment st e = spec_close (current_speaker st) (current_start st) e (current_words st)"
  by (simp add: close_segment_def spec_close_def)

text \<open>
  From any iteration after the first on (\<open>pre\<close> holds the words already visited), the
  loop succeeds, and what it has appended together with the segment that line 147
  appends is what the scan of the specification emits from the same run.
\<close>

lemma seg_loop_scan:
  "pre \<noteq> [] \<Longrightarrow>
   \<exists>st'. seg_loop (pre @ rest) (length pre) rest st = Inr st' \<and>
     segments st' @ [close_segment st' (end_time (last (pre @ rest)))] =
     segments st @ spec_scan (last pre) rest (current_speaker st) (current_start st) (current_words st)"
proof (induction rest arbitrary: pre st)
  case Nil
  then show ?case by (simp add: close_segment_spec)
next
  case (Cons w rest)
  have ne: "pre @ [w] \<noteq> []" by simp
  note IH = Cons.IH [OF ne, simplified]
  from Cons.prems have idx: "py_index (pre @ w # rest) (int (length pre) - 1) = Inr (last pre)"
    by (rule py_index_pred)
  show ?case
  proof (cases "speaker_tag w = current_speaker st")
    case True
    with IH [of "st\<lparr>current_words := current_words st @ [word w]\<rparr>"] show ?thesis
      by simp
  next
    case False
    with idx IH [of "\<lparr>segments = segments st @ [close_segment st (end_time (last pre))],
                current_speaker = speaker_tag w,
                current_start = start_time w,
                current_words = [word w]\<rparr>"] show ?thesis
      by (simp add: close_segment_spec)
  qed
qed

lemma build_segments_spec_scan:
  "build_segments (w # rest) fb dur = Inr (spec_scan w rest (speaker_tag w) (start_time w) [word w])"
proof -
  let ?st = "\<lparr>segments = [], current_speaker = speaker_tag w,
                     current_start = start_time w, current_words = [word w]\<rparr>"
  from seg_loop_scan [of "[w]" rest ?st]
  obtain st' where 1: "seg_loop (w # rest) (Suc 0) rest ?st = Inr st'"
    and 2: "segments st' @ [close_segment st' (end_time (last (w # rest)))] =
       spec_scan w rest (speaker_tag w) (start_time w) [word w]"
    by auto
  have 3: "py_index (w # rest) (- 1) = Inr (last (w # rest))"
    by (rule py_index_last) simp
  have 4: "py_index (w # rest) 0 = Inr w"
    using py_index_first [of "w # rest"] by simp
  show ?thesis
    unfolding build_segments_def using 1 2 3 4 by simp
qed

subsection \<open>Runs\<close>

lemma runs_hd:
  "runs (w # ws) \<noteq> [] \<and> hd (runs (w # ws)) \<noteq> [] \<and> hd (hd (runs (w # ws))) = w"
  by (simp split: list.splits)

lemma runs_const_append:
  "r0 \<noteq> [] \<Longrightarrow> \<forall>x\<in>set r0. speaker_tag x = c \<Longrightarrow>
   runs (r0 @ ys) =
     (case runs ys of [] \<Rightarrow> [r0]
      | r # rs \<Rightarrow> if speaker_tag (hd r) = c then (r0 @ r) # rs else r0 # r # rs)"
proof (induction r0)
  case Nil
  then show ?case by simp
next
  case (Cons x r0)
  show ?case
  proof (cases "r0 = []")
    case True
    with Cons.prems show ?thesis by (simp split: list.splits)
  next
    case False
    with Cons show ?thesis by (auto split: list.splits)
  qed
qed

lemma concat_runs: "concat (runs ws) = ws"
  by (induction ws) (auto split: list.splits)

lemma runs_nonempty: "r \<in> set (runs ws) \<Longrightarrow> r \<noteq> []"
  by (induction ws arbitrary: r) (auto split: list.splits if_splits)

lemma runs_same_speaker:
  "r \<in> set (runs ws) \<Longrightarrow> x \<in> set r \<Longrightarrow> speaker_tag x = speaker_tag (hd r)"
  by (induction ws arbitrary: r x) (auto split: list.splits if_splits)

lemma runs_tags: "map (\<lambda>r. speaker_tag (hd r)) (runs ws) = remdups_adj (map speaker_tag ws)"
  by (induction ws) (auto simp: remdups_adj_Cons split: list.splits)

lemma segment_of_run_spec:
  "r \<noteq> [] \<Longrightarrow> \<forall>x\<in>set r. speaker_tag x = c \<Longrightarrow>
   segment_of_run r = spec_close c (start_time (hd r)) (end_time (last r)) (map word r)"
  by (cases r) (simp_all add: segment_of_run_def spec_close_def)

text \<open>The scan, started inside a run \<open>r0\<close>, emits the segments of the runs.\<close>

lemma spec_scan_runs:
  "r0 \<noteq> [] \<Longrightarrow> \<forall>x\<in>set r0. speaker_tag x = c \<Longrightarrow>
   spec_scan (last r0) rest c (start_time (hd r0)) (map word r0)
     = map segment_of_run (runs (r0 @ rest))"
proof (induction rest arbitrary: r0 c)
  case Nil
  have "runs r0 = [r0]"
    using runs_const_append [OF Nil.prems, of "[]"] by simp
  then show ?case
    by (simp add: segment_of_run_spec [OF Nil.prems])
next
  case (Cons w rest)
  show ?case
  proof (cases "speaker_tag w = c")
    case True
    have ne: "r0 @ [w] \<noteq> []" by simp
    have all: "\<forall>x\<in>set (r0 @ [w]). speaker_tag x = c"
      using Cons.prems(2) True by simp
    have "spec_scan w rest c (start_time (hd r0)) (map word r0 @ [word w])
        = map segment_of_run (runs (r0 @ w # rest))"
      using Cons.IH [OF ne all] Cons.prems(1) by simp
    then show ?thesis using True by simp
  next
    case False
    have "runs (r0 @ w # rest) = r0 # runs (w # rest)"
      using runs_const_append [OF Cons.prems, of "w # rest"] runs_hd [of w rest] False
      by (cases "runs (w # rest)") auto
    moreover have "spec_scan w rest (speaker_tag w) (start_time w) [word w]
        = map segment_of_run (runs (w # rest))"
      using Cons.IH [of "[w]" "speaker_tag w"] by simp
    ultimately show ?thesis using False
      by (simp add: segment_of_run_spec [OF Cons.prems])
  qed
qed

text \<open>On a word list that is not empty the code returns the segments of the runs.\<close>

lemma build_segments_runs:
  "ws \<noteq> [] \<Longrightarrow> build_segments ws fb dur = Inr (map segment_of_run (runs ws))"
proof (cases ws)
  case Nil
  assume "ws \<noteq> []"
  with Nil show ?thesis by simp
next
  case (Cons w rest)
  have "spec_scan w rest (speaker_tag w) (start_time w) [word w]
      = map segment_of_run (runs (w # rest))"
    using spec_scan_runs [of "[w]" "speaker_tag w" rest] by simp
  with Cons show ?thesis by (simp add: build_segments_spec_scan)
qed

subsection \<open>Rounding\<close>

lemma round_half_even_bounds:
  "\<lfloor>x\<rfloor> \<le> round_half_even x \<and> round_half_even x \<le> \<lfloor>x\<rfloor> + 1"
  by (simp add: round_half_even_def Let_def)

lemma round_half_even_mono: "x \<le> y \<Longrightarrow> round_half_even x \<le> round_half_even y"
proof -
  assume xy: "x \<le> y"
  then have fl: "\<lfloor>x\<rfloor> \<le> \<lfloor>y\<rfloor>" by (rule floor_mono)
  show ?thesis
  proof (cases "\<lfloor>x\<rfloor> = \<lfloor>y\<rfloor>")
    case True
    with xy have "x - of_int \<lfloor>x\<rfloor> \<le> y - of_int \<lfloor>y\<rfloor>" by simp
    with True show ?thesis
      by (auto simp: round_half_even_def Let_def)
  next
    case False
    with fl have "\<lfloor>x\<rfloor> + 1 \<le> \<lfloor>y\<rfloor>" by simp
    with round_half_even_bounds [of x] round_half_even_bounds [of y] show ?thesis by linarith
  qed
qed

lemma round2_mono: "x \<le> y \<Longrightarrow> round2 x \<le> round2 y"
  by (simp add: round2_def round_half_even_mono divide_right_mono)

lemma round_half_even_int: "round_half_even (of_int m) = m"
  by (simp add: round_half_even_def)

lemma round2_int: "round2 (of_int n) = of_int n"
proof -
  have "(of_int n :: rat) * 100 = of_int (n * 100)" by simp
  then have "round_half_even (of_int n * 100) = n * 100"
    by (simp only: round_half_even_int)
  then show ?thesis by (simp add: round2_def)
qed

lemma round2_0: "round2 0 = 0" and round2_1: "round2 1 = 1"
  and round2_2: "round2 2 = 2" and round2_3: "round2 3 = 3"
  using round2_int [of 0] round2_int [of 1] round2_int [of 2] round2_int [of 3] by simp_all

declare str_nat.simps [simp del]

section \<open>The claims\<close>

subsection \<open>The fallback segment\<close>

text \<open>
  C2. On an empty word list, for every transcript and every duration, the code returns
  exactly one segment: speaker \<^verbatim>\<open>unknown\<close>, start 0, end the duration as it is, text the
  transcript without the white space around it. With the transcript
  \<^verbatim>\<open>hello world\<close> and the duration 12.34 the segment is
  \<^verbatim>\<open>{unknown, 0.0, 12.34, hello world}\<close>.
\<close>

theorem fallback_segment:
  "build_segments [] fb dur =
     Inr [\<lparr>seg_speaker = ''unknown'', seg_start = 0, seg_end = dur, seg_text = strip fb\<rparr>]
   \<and> build_segments [] ''hello world'' (1234 / 100) =
     Inr [\<lparr>seg_speaker = ''unknown'', seg_start = 0, seg_end = 1234 / 100,
           seg_text = ''hello world''\<rparr>]"
  by (simp add: build_segments_def strip_def isspace_def)

theorem fallback_segment_witness:
  "build_segments [] ''  hello world '' (1234 / 100) =
     Inr [\<lparr>seg_speaker = ''unknown'', seg_start = 0, seg_end = 617 / 50,
           seg_text = ''hello world''\<rparr>]"
  using fallback_segment [of "''  hello world ''" "1234 / 100"]
  by (simp add: strip_def isspace_def)

subsection \<open>One segment for each run\<close>

text \<open>
  C1. On a word list that is not empty the code cuts the list into runs \<open>rs\<close>: the
  runs in order make up the list, no run is empty, the words of a run all carry the
  tag of its first word, and two runs that follow each other carry different tags, so a
  run is closed exactly where the next word's tag differs. The code returns one segment
  for each run, in order: the label is \<^verbatim>\<open>Speaker\<close> followed by the run's tag, the start
  is the rounded start time of the run's first word, the end is the rounded end time of
  the run's last word (the word before the change of speaker, and for the final run the
  last word of the list), and the text is the run's words joined by single spaces, then
  stripped. For two different tags \<open>a\<close> and \<open>b\<close>, the words
  \<^verbatim>\<open>(a,0,1,hi), (a,1,2,there), (b,2,3,yo)\<close> give the two segments
  \<^verbatim>\<open>{Speaker a, 0, 2, hi there}\<close> and \<^verbatim>\<open>{Speaker b, 2, 3, yo}\<close>.
\<close>

theorem segment_per_run:
  "(ws \<noteq> [] \<longrightarrow>
      (\<exists>rs. concat rs = ws
         \<and> (\<forall>r\<in>set rs. r \<noteq> [] \<and> (\<forall>x\<in>set r. speaker_tag x = speaker_tag (hd r)))
         \<and> distinct_adj (map (\<lambda>r. speaker_tag (hd r)) rs)
         \<and> build_segments ws fb dur =
             Inr (map (\<lambda>r. \<lparr>seg_speaker = ''Speaker '' @ str_int (speaker_tag (hd r)),
                             seg_start = round2 (start_time (hd r)),
                             seg_end = round2 (end_time (last r)),
                             seg_text = strip (join '' '' (map word r))\<rparr>) rs)))
   \<and> (a \<noteq> b \<longrightarrow>
        build_segments
          [\<lparr>word = ''hi'', speaker_tag = a, start_time = 0, end_time = 1\<rparr>,
           \<lparr>word = ''there'', speaker_tag = a, start_time = 1, end_time = 2\<rparr>,
           \<lparr>word = ''yo'', speaker_tag = b, start_time = 2, end_time = 3\<rparr>] fb dur =
        Inr [\<lparr>seg_speaker = ''Speaker '' @ str_int a, seg_start = 0, seg_end = 2,
               seg_text = ''hi there''\<rparr>,
             \<lparr>seg_speaker = ''Speaker '' @ str_int b, seg_start = 2, seg_end = 3,
               seg_text = ''yo''\<rparr>])"
proof (intro conjI impI)
  assume ne: "ws \<noteq> []"
  have "concat (runs ws) = ws" by (rule concat_runs)
  moreover have "\<forall>r\<in>set (runs ws). r \<noteq> [] \<and> (\<forall>x\<in>set r. speaker_tag x = speaker_tag (hd r))"
    using runs_nonempty runs_same_speaker by blast
  moreover have "distinct_adj (map (\<lambda>r. speaker_tag (hd r)) (runs ws))"
    by (simp add: runs_tags)
  moreover have "build_segments ws fb dur =
      Inr (map (\<lambda>r. \<lparr>seg_speaker = ''Speaker '' @ str_int (speaker_tag (hd r)),
                             seg_start = round2 (start_time (hd r)),
                             seg_end = round2 (end_time (last r)),
                             seg_text = strip (join '' '' (map word r))\<rparr>) (runs ws))"
    using build_segments_runs [OF ne, of fb dur] by (simp add: segment_of_run_def)
  ultimately show "\<exists>rs. concat rs = ws
         \<and> (\<forall>r\<in>set rs. r \<noteq> [] \<and> (\<forall>x\<in>set r. speaker_tag x = speaker_tag (hd r)))
         \<and> distinct_adj (map (\<lambda>r. speaker_tag (hd r)) rs)
         \<and> build_segments ws fb dur =
             Inr (map (\<lambda>r. \<lparr>seg_speaker = ''Speaker '' @ str_int (speaker_tag (hd r)),
                             seg_start = round2 (start_time (hd r)),
                             seg_end = round2 (end_time (last r)),
                             seg_text = strip (join '' '' (map word r))\<rparr>) rs)"
    by blast
next
  assume ab: "a \<noteq> b"
  show "build_segments
          [\<lparr>word = ''hi'', speaker_tag = a, start_time = 0, end_time = 1\<rparr>,
           \<lparr>word = ''there'', speaker_tag = a, start_time = 1, end_time = 2\<rparr>,
           \<lparr>word = ''yo'', speaker_tag = b, start_time = 2, end_time = 3\<rparr>] fb dur =
        Inr [\<lparr>seg_speaker = ''Speaker '' @ str_int a, seg_start = 0, seg_end = 2,
               seg_text = ''hi there''\<rparr>,
             \<lparr>seg_speaker = ''Speaker '' @ str_int b, seg_start = 2, seg_end = 3,
               seg_text = ''yo''\<rparr>]"
    using ab
    by (simp add: build_segments_runs segment_of_run_def round2_0 round2_2 round2_3
        strip_def isspace_def)
qed

theorem segment_per_run_witness:
  "build_segments
     [\<lparr>word = ''hi'', speaker_tag = 1, start_time = 0, end_time = 1\<rparr>,
      \<lparr>word = ''there'', speaker_tag = 1, start_time = 1, end_time = 2\<rparr>,
      \<lparr>word = ''yo'', speaker_tag = 2, start_time = 2, end_time = 3\<rparr>] [] 3 =
   Inr [\<lparr>seg_speaker = ''Speaker 1'', seg_start = 0, seg_end = 2, seg_text = ''hi there''\<rparr>,
        \<lparr>seg_speaker = ''Speaker 2'', seg_start = 2, seg_end = 3, seg_text = ''yo''\<rparr>]
   \<and> (\<exists>rs. concat rs =
          [\<lparr>word = ''hi'', speaker_tag = 1, start_time = 0, end_time = 1\<rparr>,
           \<lparr>word = ''there'', speaker_tag = 1, start_time = 1, end_time = 2\<rparr>,
           \<lparr>word = ''yo'', speaker_tag = 2, start_time = 2, end_time = 3\<rparr>]
         \<and> distinct_adj (map (\<lambda>r. speaker_tag (hd r)) rs)
         \<and> build_segments
              [\<lparr>word = ''hi'', speaker_tag = 1, start_time = 0, end_time = 1\<rparr>,
               \<lparr>word = ''there'', speaker_tag = 1, start_time = 1, end_time = 2\<rparr>,
               \<lparr>word = ''yo'', speaker_tag = 2, start_time = 2, end_time = 3\<rparr>] [] 3 =
             Inr (map (\<lambda>r. \<lparr>seg_speaker = ''Speaker '' @ str_int (speaker_tag (hd r)),
                             seg_start = round2 (start_time (hd r)),
                             seg_end = round2 (end_time (last r)),
                             seg_text = strip (join '' '' (map word r))\<rparr>) rs))"
proof -
  note t = segment_per_run
    [of "[\<lparr>word = ''hi'', speaker_tag = 1, start_time = 0, end_time = 1\<rparr>,
          \<lparr>word = ''there'', speaker_tag = 1, start_time = 1, end_time = 2\<rparr>,
          \<lparr>word = ''yo'', speaker_tag = 2, start_time = 2, end_time = 3\<rparr>]" "[]" 3 1 2]
  have ne: "[\<lparr>word = ''hi'', speaker_tag = 1, start_time = 0, end_time = 1\<rparr>,
          \<lparr>word = ''there'', speaker_tag = 1, start_time = 1, end_time = 2\<rparr>,
          \<lparr>word = ''yo'', speaker_tag = 2, start_time = 2, end_time = 3\<rparr>] \<noteq> []"
    by simp
  have ab: "(1::int) \<noteq> 2" by simp
  from t [THEN conjunct2, rule_format, OF ab]
  have "build_segments
     [\<lparr>word = ''hi'', speaker_tag = 1, start_time = 0, end_time = 1\<rparr>,
      \<lparr>word = ''there'', speaker_tag = 1, start_time = 1, end_time = 2\<rparr>,
      \<lparr>word = ''yo'', speaker_tag = 2, start_time = 2, end_time = 3\<rparr>] [] 3 =
   Inr [\<lparr>seg_speaker = ''Speaker 1'', seg_start = 0, seg_end = 2, seg_text = ''hi there''\<rparr>,
        \<lparr>seg_speaker = ''Speaker 2'', seg_start = 2, seg_end = 3, seg_text = ''yo''\<rparr>]"
    by (simp add: str_int_def str_nat.simps digit_char_def)
  moreover from t [THEN conjunct1, rule_format, OF ne]
  have "\<exists>rs. concat rs =
          [\<lparr>word = ''hi'', speaker_tag = 1, start_time = 0, end_time = 1\<rparr>,
           \<lparr>word = ''there'', speaker_tag = 1, start_time = 1, end_time = 2\<rparr>,
           \<lparr>word = ''yo'', speaker_tag = 2, start_time = 2, end_time = 3\<rparr>]
         \<and> distinct_adj (map (\<lambda>r. speaker_tag (hd r)) rs)
         \<and> build_segments
              [\<lparr>word = ''hi'', speaker_tag = 1, start_time = 0, end_time = 1\<rparr>,
               \<lparr>word = ''there'', speaker_tag = 1, start_time = 1, end_time = 2\<rparr>,
               \<lparr>word = ''yo'', speaker_tag = 2, start_time = 2, end_time = 3\<rparr>] [] 3 =
             Inr (map (\<lambda>r. \<lparr>seg_speaker = ''Speaker '' @ str_int (speaker_tag (hd r)),
                             seg_start = round2 (start_time (hd r)),
                             seg_end = round2 (end_time (last r)),
                             seg_text = strip (join '' '' (map word r))\<rparr>) rs)"
    by blast
  ultimately show ?thesis by blast
qed

subsection \<open>The number of segments\<close>

text \<open>
  C3. On a word list that is not empty the code returns as many segments as the list
  has maximal runs of consecutive equal speaker tags, which is the length of the tag
  list once every run of equal neighbours is collapsed to one entry
  (\<open>remdups_adj\<close>). Runs of one speaker that are not adjacent are not merged: three
  words whose tags are A, B, A, one word each, give three segments, the first and the
  third with the same label.
\<close>

theorem segment_count:
  "(ws \<noteq> [] \<longrightarrow>
      (\<exists>segs. build_segments ws fb dur = Inr segs
         \<and> length segs = length (remdups_adj (map speaker_tag ws))))
   \<and> (speaker_tag w1 = speaker_tag w3 \<and> speaker_tag w2 \<noteq> speaker_tag w1 \<longrightarrow>
        (\<exists>s1 s2 s3. build_segments [w1, w2, w3] fb dur = Inr [s1, s2, s3]
           \<and> seg_speaker s1 = seg_speaker s3))"
proof (intro conjI impI)
  assume ne: "ws \<noteq> []"
  have "length (map segment_of_run (runs ws)) = length (map (\<lambda>r. speaker_tag (hd r)) (runs ws))"
    by simp
  also have "\<dots> = length (remdups_adj (map speaker_tag ws))"
    by (simp only: runs_tags)
  finally show "\<exists>segs. build_segments ws fb dur = Inr segs
         \<and> length segs = length (remdups_adj (map speaker_tag ws))"
    using build_segments_runs [OF ne, of fb dur] by simp
next
  assume "speaker_tag w1 = speaker_tag w3 \<and> speaker_tag w2 \<noteq> speaker_tag w1"
  then have "build_segments [w1, w2, w3] fb dur =
      Inr [segment_of_run [w1], segment_of_run [w2], segment_of_run [w3]]"
    by (simp add: build_segments_runs)
  moreover have "seg_speaker (segment_of_run [w1]) = seg_speaker (segment_of_run [w3])"
    using \<open>speaker_tag w1 = speaker_tag w3 \<and> speaker_tag w2 \<noteq> speaker_tag w1\<close>
    by (simp add: segment_of_run_def)
  ultimately show "\<exists>s1 s2 s3. build_segments [w1, w2, w3] fb dur = Inr [s1, s2, s3]
           \<and> seg_speaker s1 = seg_speaker s3"
    by blast
qed

theorem segment_count_witness:
  "(\<exists>segs. build_segments
       [\<lparr>word = ''a'', speaker_tag = 1, start_time = 0, end_time = 1\<rparr>,
        \<lparr>word = ''b'', speaker_tag = 2, start_time = 1, end_time = 2\<rparr>,
        \<lparr>word = ''c'', speaker_tag = 1, start_time = 2, end_time = 3\<rparr>] [] 3 = Inr segs
      \<and> length segs = 3)
   \<and> (\<exists>s1 s2 s3. build_segments
       [\<lparr>word = ''a'', speaker_tag = 1, start_time = 0, end_time = 1\<rparr>,
        \<lparr>word = ''b'', speaker_tag = 2, start_time = 1, end_time = 2\<rparr>,
        \<lparr>word = ''c'', speaker_tag = 1, start_time = 2, end_time = 3\<rparr>] [] 3 = Inr [s1, s2, s3]
      \<and> seg_speaker s1 = seg_speaker s3)"
  using segment_count
    [where ws = "[\<lparr>word = ''a'', speaker_tag = 1, start_time = 0, end_time = 1\<rparr>,
        \<lparr>word = ''b'', speaker_tag = 2, start_time = 1, end_time = 2\<rparr>,
        \<lparr>word = ''c'', speaker_tag = 1, start_time = 2, end_time = 3\<rparr>]"
      and fb = "[]" and dur = 3
      and ?w1.0 = "\<lparr>word = ''a'', speaker_tag = 1, start_time = 0, end_time = 1\<rparr>"
      and ?w2.0 = "\<lparr>word = ''b'', speaker_tag = 2, start_time = 1, end_time = 2\<rparr>"
      and ?w3.0 = "\<lparr>word = ''c'', speaker_tag = 1, start_time = 2, end_time = 3\<rparr>"]
  by (simp add: numeral_3_eq_3)

subsection \<open>The loop of the code and the algorithm of the specification\<close>

text \<open>
  C7. The code starts its loop with an empty buffer and visits every word, the first
  included, reading the predecessor by index where the speaker changes; the reference
  algorithm of the specification starts with the first word in the buffer and visits
  the words after it. On every input both return the same list of segments, and the
  code raises nothing.
\<close>

theorem code_refines_spec:
  "build_segments ws fb dur = Inr (spec_build_segments ws fb dur)"
proof (cases ws)
  case Nil
  then show ?thesis by (simp add: build_segments_def spec_build_segments_def)
next
  case (Cons w rest)
  then show ?thesis by (simp add: build_segments_spec_scan spec_build_segments_def)
qed

theorem code_refines_spec_witness:
  "build_segments
       [\<lparr>word = ''a'', speaker_tag = 1, start_time = 0, end_time = 1\<rparr>,
        \<lparr>word = ''b'', speaker_tag = 2, start_time = 1, end_time = 2\<rparr>] [] 3
    = Inr (spec_build_segments
       [\<lparr>word = ''a'', speaker_tag = 1, start_time = 0, end_time = 1\<rparr>,
        \<lparr>word = ''b'', speaker_tag = 2, start_time = 1, end_time = 2\<rparr>] [] 3)
   \<and> spec_build_segments
       [\<lparr>word = ''a'', speaker_tag = 1, start_time = 0, end_time = 1\<rparr>,
        \<lparr>word = ''b'', speaker_tag = 2, start_time = 1, end_time = 2\<rparr>] [] 3
     = [\<lparr>seg_speaker = ''Speaker 1'', seg_start = 0, seg_end = 1, seg_text = ''a''\<rparr>,
        \<lparr>seg_speaker = ''Speaker 2'', seg_start = 1, seg_end = 2, seg_text = ''b''\<rparr>]"
  using code_refines_spec
    [of "[\<lparr>word = ''a'', speaker_tag = 1, start_time = 0, end_time = 1\<rparr>,
        \<lparr>word = ''b'', speaker_tag = 2, start_time = 1, end_time = 2\<rparr>]" "[]" 3]
  by (simp add: spec_build_segments_def spec_close_def round2_0 round2_1 round2_2
      strip_def isspace_def str_int_def str_nat.simps digit_char_def)

subsection \<open>The lookup of the predecessor\<close>

text \<open>
  The loop over a list that is cut in two is the loop over the first part followed by
  the loop over the second, so \<open>seg_loop ws 0 (take i ws) st\<close> is the state in which
  iteration \<open>i\<close> starts.
\<close>

lemma seg_loop_append:
  "seg_loop ws idx (xs @ ys) st =
     (case seg_loop ws idx xs st of
        Inl e \<Rightarrow> Inl e
      | Inr st' \<Rightarrow> seg_loop ws (idx + length xs) ys st')"
  by (induction xs arbitrary: idx st) (simp_all split: sum.splits)

text \<open>
  C10. On a word list that is not empty \<^verbatim>\<open>words[0]\<close> is the first word, so the loop
  starts with the first word's tag as the current speaker. In every iteration \<open>i\<close>
  that takes the branch of the speaker change, \<open>i\<close> is at least 1 and
  \<^verbatim>\<open>words[idx - 1]\<close> is the word just before the current one: the branch is not taken
  in the first iteration, and the lookup never leaves the list. The loop and the
  whole construction return a result, they raise nothing.
\<close>

theorem predecessor_in_bounds:
  "ws \<noteq> [] \<Longrightarrow>
   py_index ws 0 = Inr (hd ws)
   \<and> (\<exists>st. seg_loop ws 0 ws
          \<lparr>segments = [], current_speaker = speaker_tag (hd ws),
           current_start = start_time (hd ws), current_words = []\<rparr> = Inr st)
   \<and> (\<forall>i st. i < length ws
         \<and> seg_loop ws 0 (take i ws)
             \<lparr>segments = [], current_speaker = speaker_tag (hd ws),
              current_start = start_time (hd ws), current_words = []\<rparr> = Inr st
         \<and> speaker_tag (ws ! i) \<noteq> current_speaker st
         \<longrightarrow> 0 < i \<and> py_index ws (int i - 1) = Inr (ws ! (i - 1)))
   \<and> (\<exists>segs. build_segments ws fb dur = Inr segs)"
proof (intro conjI allI impI)
  assume ne: "ws \<noteq> []"
  then obtain w rest where ws: "ws = w # rest" by (cases ws) auto
  show "py_index ws 0 = Inr (hd ws)" using ne by (rule py_index_first)
  show "\<exists>st. seg_loop ws 0 ws
          \<lparr>segments = [], current_speaker = speaker_tag (hd ws),
           current_start = start_time (hd ws), current_words = []\<rparr> = Inr st"
    using seg_loop_scan [of "[w]" rest
        "\<lparr>segments = [], current_speaker = speaker_tag w,
           current_start = start_time w, current_words = [word w]\<rparr>"] ws
    by auto
  show "\<exists>segs. build_segments ws fb dur = Inr segs"
    using build_segments_runs [OF ne] by simp
next
  fix i st
  assume ne: "ws \<noteq> []"
  assume a: "i < length ws
         \<and> seg_loop ws 0 (take i ws)
             \<lparr>segments = [], current_speaker = speaker_tag (hd ws),
              current_start = start_time (hd ws), current_words = []\<rparr> = Inr st
         \<and> speaker_tag (ws ! i) \<noteq> current_speaker st"
  show pos: "0 < i"
  proof (rule ccontr)
    assume "\<not> 0 < i"
    then have "i = 0" by simp
    with a ne show False by (auto simp: hd_conv_nth)
  qed
  from pos a show "py_index ws (int i - 1) = Inr (ws ! (i - 1))"
    by (simp add: py_index_def nat_diff_distrib')
qed

theorem predecessor_in_bounds_witness:
  "py_index [\<lparr>word = ''a'', speaker_tag = 1, start_time = 0, end_time = 1\<rparr>,
        \<lparr>word = ''b'', speaker_tag = 2, start_time = 1, end_time = 2\<rparr>] 0
     = Inr \<lparr>word = ''a'', speaker_tag = 1, start_time = 0, end_time = 1\<rparr>
   \<and> py_index [\<lparr>word = ''a'', speaker_tag = 1, start_time = 0, end_time = 1\<rparr>,
        \<lparr>word = ''b'', speaker_tag = 2, start_time = 1, end_time = 2\<rparr>] (int 1 - 1)
     = Inr \<lparr>word = ''a'', speaker_tag = 1, start_time = 0, end_time = 1\<rparr>
   \<and> (\<exists>segs. build_segments [\<lparr>word = ''a'', speaker_tag = 1, start_time = 0, end_time = 1\<rparr>,
        \<lparr>word = ''b'', speaker_tag = 2, start_time = 1, end_time = 2\<rparr>] [] 2 = Inr segs)"
proof -
  let ?ws = "[\<lparr>word = ''a'', speaker_tag = 1, start_time = 0, end_time = 1\<rparr>,
        \<lparr>word = ''b'', speaker_tag = 2, start_time = 1, end_time = 2\<rparr>]"
  have ne: "?ws \<noteq> []" by simp
  note t = predecessor_in_bounds [OF ne, of "[]" 2]
  from t have 1: "py_index ?ws 0 = Inr (hd ?ws)" by blast
  from t have 3: "\<exists>segs. build_segments ?ws [] 2 = Inr segs" by blast
  from t have "\<forall>i st. i < length ?ws
         \<and> seg_loop ?ws 0 (take i ?ws)
             \<lparr>segments = [], current_speaker = speaker_tag (hd ?ws),
              current_start = start_time (hd ?ws), current_words = []\<rparr> = Inr st
         \<and> speaker_tag (?ws ! i) \<noteq> current_speaker st
         \<longrightarrow> 0 < i \<and> py_index ?ws (int i - 1) = Inr (?ws ! (i - 1))" by blast
  from this [rule_format, of 1
      "\<lparr>segments = [], current_speaker = 1, current_start = 0, current_words = [''a'']\<rparr>"]
  have 2: "py_index ?ws (int 1 - 1) = Inr (?ws ! (1 - 1))" by simp
  from 1 2 3 show ?thesis by simp
qed

subsection \<open>Start and end of a segment\<close>

lemma sorted_map_concat_member:
  "sorted (map f (concat rs)) \<Longrightarrow> r \<in> set rs \<Longrightarrow> sorted (map f r)"
  by (induction rs) (auto simp: sorted_append)

lemma sorted_hd_last: "sorted xs \<Longrightarrow> xs \<noteq> [] \<Longrightarrow> hd xs \<le> last xs"
  by (cases xs) (auto simp: last_in_set)

lemma run_start_le_end:
  assumes inner: "\<forall>w\<in>set ws. start_time w \<le> end_time w"
    and ord: "sorted (map start_time ws)"
    and r: "r \<in> set (runs ws)"
  shows "start_time (hd r) \<le> end_time (last r)"
proof -
  have ne: "r \<noteq> []" using r by (rule runs_nonempty)
  have "sorted (map start_time (concat (runs ws)))" using ord by (simp add: concat_runs)
  then have "sorted (map start_time r)" using r by (rule sorted_map_concat_member)
  then have "hd (map start_time r) \<le> last (map start_time r)"
    using ne by (intro sorted_hd_last) simp_all
  then have 1: "start_time (hd r) \<le> start_time (last r)"
    using ne by (simp add: hd_map last_map)
  have "last r \<in> set r" using ne by (rule last_in_set)
  with r have "last r \<in> set (concat (runs ws))" by auto
  then have "last r \<in> set ws" by (simp add: concat_runs)
  with inner have "start_time (last r) \<le> end_time (last r)" by blast
  with 1 show ?thesis by simp
qed

text \<open>
  C5. When every word starts no later than it ends, the words are ordered by start
  time and the duration of the clip is not negative, the code returns segments, and
  every one of them starts no later than it ends.
\<close>

theorem segment_start_le_end:
  assumes "\<forall>w\<in>set ws. start_time w \<le> end_time w"
    and "sorted (map start_time ws)"
    and "0 \<le> dur"
  shows "\<exists>segs. build_segments ws fb dur = Inr segs
           \<and> (\<forall>s\<in>set segs. seg_start s \<le> seg_end s)"
proof (cases "ws = []")
  case True
  with assms(3) show ?thesis by (simp add: build_segments_def)
next
  case False
  have "\<forall>s\<in>set (map segment_of_run (runs ws)). seg_start s \<le> seg_end s"
    using run_start_le_end [OF assms(1,2)]
    by (auto simp: segment_of_run_def intro: round2_mono)
  with build_segments_runs [OF False, of fb dur] show ?thesis by simp
qed

theorem segment_start_le_end_witness:
  "sorted (map start_time
       [\<lparr>word = ''a'', speaker_tag = 1, start_time = 0, end_time = 1\<rparr>,
        \<lparr>word = ''b'', speaker_tag = 2, start_time = 1, end_time = 2\<rparr>])
   \<and> (\<exists>segs. build_segments
       [\<lparr>word = ''a'', speaker_tag = 1, start_time = 0, end_time = 1\<rparr>,
        \<lparr>word = ''b'', speaker_tag = 2, start_time = 1, end_time = 2\<rparr>] [] 2 = Inr segs
         \<and> (\<forall>s\<in>set segs. seg_start s \<le> seg_end s))"
proof -
  let ?ws = "[\<lparr>word = ''a'', speaker_tag = 1, start_time = 0, end_time = 1\<rparr>,
        \<lparr>word = ''b'', speaker_tag = 2, start_time = 1, end_time = 2\<rparr>]"
  have 1: "\<forall>w\<in>set ?ws. start_time w \<le> end_time w" by simp
  have 2: "sorted (map start_time ?ws)" by simp
  have 3: "(0::rat) \<le> 2" by simp
  from segment_start_le_end [OF 1 2 3, of "[]"] 2 show ?thesis by blast
qed

subsection \<open>The texts of the segments\<close>

lemma join_Cons: "ys \<noteq> [] \<Longrightarrow> join sep (x # ys) = x @ sep @ join sep ys"
  by (cases ys) simp_all

lemma join_append:
  "xs \<noteq> [] \<Longrightarrow> ys \<noteq> [] \<Longrightarrow> join sep (xs @ ys) = join sep xs @ sep @ join sep ys"
proof (induction xs)
  case Nil
  then show ?case by simp
next
  case (Cons x xs)
  show ?case
  proof (cases "xs = []")
    case True
    with Cons.prems show ?thesis by (simp add: join_Cons)
  next
    case False
    with Cons show ?thesis by (simp add: join_Cons)
  qed
qed

lemma concat_nonempty: "rs \<noteq> [] \<Longrightarrow> \<forall>r\<in>set rs. r \<noteq> [] \<Longrightarrow> concat rs \<noteq> []"
  by (cases rs) auto

lemma join_concat:
  "\<forall>r\<in>set rs. r \<noteq> [] \<Longrightarrow> join sep (map (join sep) rs) = join sep (concat rs)"
proof (induction rs)
  case Nil
  then show ?case by simp
next
  case (Cons r rs)
  show ?case
  proof (cases "rs = []")
    case True
    then show ?thesis by simp
  next
    case False
    with Cons.prems have "concat rs \<noteq> []" by (intro concat_nonempty) simp_all
    with Cons False show ?thesis by (simp add: join_Cons join_append)
  qed
qed

lemma hd_join: "xs \<noteq> [] \<Longrightarrow> hd xs \<noteq> [] \<Longrightarrow> hd (join sep xs) = hd (hd xs)"
proof (cases xs)
  case Nil
  assume "xs \<noteq> []"
  with Nil show ?thesis by simp
next
  case (Cons x ys)
  assume "hd xs \<noteq> []"
  with Cons show ?thesis by (cases ys) simp_all
qed

lemma last_join: "xs \<noteq> [] \<Longrightarrow> last xs \<noteq> [] \<Longrightarrow> last (join sep xs) = last (last xs)"
proof (cases xs rule: rev_cases)
  case Nil
  assume "xs \<noteq> []"
  with Nil show ?thesis by simp
next
  case (snoc ys y)
  assume "last xs \<noteq> []"
  with snoc have y: "y \<noteq> []" by simp
  show ?thesis
  proof (cases "ys = []")
    case True
    with snoc show ?thesis by simp
  next
    case False
    with snoc y show ?thesis by (simp add: join_append)
  qed
qed

lemma join_nonempty: "xs \<noteq> [] \<Longrightarrow> hd xs \<noteq> [] \<Longrightarrow> join sep xs \<noteq> []"
proof (cases xs)
  case Nil
  assume "xs \<noteq> []"
  with Nil show ?thesis by simp
next
  case (Cons x ys)
  assume "hd xs \<noteq> []"
  with Cons show ?thesis by (cases ys) simp_all
qed

lemma strip_id: "s \<noteq> [] \<Longrightarrow> \<not> isspace (hd s) \<Longrightarrow> \<not> isspace (last s) \<Longrightarrow> strip s = s"
proof -
  assume ne: "s \<noteq> []" and h: "\<not> isspace (hd s)" and l: "\<not> isspace (last s)"
  from ne h have 1: "dropWhile isspace s = s" by (cases s) simp_all
  from ne l have "dropWhile isspace (rev s) = rev s"
    by (cases s rule: rev_cases) simp_all
  with 1 show ?thesis by (simp add: strip_def)
qed


lemma run_text_unstripped:
  assumes r: "r \<noteq> []"
    and w: "\<forall>x\<in>set r. word x \<noteq> [] \<and> \<not> isspace (hd (word x)) \<and> \<not> isspace (last (word x))"
  shows "strip (join '' '' (map word r)) = join '' '' (map word r)"
proof -
  from r have m: "map word r \<noteq> []" by simp
  from r w have h: "hd (map word r) \<noteq> []" and hs: "\<not> isspace (hd (hd (map word r)))"
    by (simp_all add: hd_map)
  from r w have l: "last (map word r) \<noteq> []" and ls: "\<not> isspace (last (last (map word r)))"
    by (simp_all add: last_map)
  show ?thesis
  proof (rule strip_id)
    show "join '' '' (map word r) \<noteq> []" using m h by (rule join_nonempty)
    show "\<not> isspace (hd (join '' '' (map word r)))" using hs by (simp add: hd_join [OF m h])
    show "\<not> isspace (last (join '' '' (map word r)))" using ls by (simp add: last_join [OF m l])
  qed
qed

text \<open>
  C4, as amended. On a word list that is not empty and in which no word text is empty
  or begins or ends with a white-space character, the texts of the returned segments,
  joined in order by single spaces, are the word texts joined in order by single
  spaces: every word is there once, in its place.
\<close>

theorem segment_texts_reproduce_words:
  assumes ne: "ws \<noteq> []"
    and w: "\<forall>x\<in>set ws. word x \<noteq> [] \<and> \<not> isspace (hd (word x)) \<and> \<not> isspace (last (word x))"
  shows "\<exists>segs. build_segments ws fb dur = Inr segs
           \<and> join '' '' (map seg_text segs) = join '' '' (map word ws)"
proof -
  have inside: "set r \<subseteq> set ws" if "r \<in> set (runs ws)" for r
  proof -
    from that have "set r \<subseteq> set (concat (runs ws))" by auto
    then show ?thesis by (simp add: concat_runs)
  qed
  have texts: "map (\<lambda>r. seg_text (segment_of_run r)) (runs ws)
      = map (\<lambda>r. join '' '' (map word r)) (runs ws)"
  proof (rule map_cong [OF refl])
    fix r assume r: "r \<in> set (runs ws)"
    then have "r \<noteq> []" by (rule runs_nonempty)
    moreover have "\<forall>x\<in>set r. word x \<noteq> [] \<and> \<not> isspace (hd (word x)) \<and> \<not> isspace (last (word x))"
      using w inside [OF r] by blast
    ultimately show "seg_text (segment_of_run r) = join '' '' (map word r)"
      by (simp add: segment_of_run_def run_text_unstripped)
  qed
  have "map seg_text (map segment_of_run (runs ws))
      = map (join '' '') (map (map word) (runs ws))"
    unfolding map_map comp_def by (rule texts)
  then have "join '' '' (map seg_text (map segment_of_run (runs ws)))
      = join '' '' (map (join '' '') (map (map word) (runs ws)))"
    by (rule arg_cong)
  also have "\<dots> = join '' '' (concat (map (map word) (runs ws)))"
    by (rule join_concat) (auto dest: runs_nonempty)
  also have "\<dots> = join '' '' (map word ws)"
    by (simp add: concat_runs flip: map_concat)
  finally show ?thesis using build_segments_runs [OF ne, of fb dur] by simp
qed

theorem segment_texts_reproduce_words_witness:
  "(\<exists>segs. build_segments
       [\<lparr>word = ''a'', speaker_tag = 1, start_time = 0, end_time = 1\<rparr>,
        \<lparr>word = ''b'', speaker_tag = 2, start_time = 1, end_time = 2\<rparr>] [] 2 = Inr segs
       \<and> join '' '' (map seg_text segs) = ''a b'')"
proof -
  let ?ws = "[\<lparr>word = ''a'', speaker_tag = 1, start_time = 0, end_time = 1\<rparr>,
        \<lparr>word = ''b'', speaker_tag = 2, start_time = 1, end_time = 2\<rparr>]"
  have 1: "?ws \<noteq> []" by simp
  have 2: "\<forall>x\<in>set ?ws. word x \<noteq> [] \<and> \<not> isspace (hd (word x)) \<and> \<not> isspace (last (word x))"
    by (simp add: isspace_def)
  from segment_texts_reproduce_words [OF 1 2, of "[]" 2] show ?thesis by simp
qed

text \<open>
  C4 as stated, for every word list that is not empty, fails, since the code strips
  the text of a segment: the single word \<^verbatim>\<open>" hi"\<close> gives a segment with the text
  \<^verbatim>\<open>"hi"\<close>.
\<close>

theorem stripped_word_counterexample:
  "build_segments [\<lparr>word = '' hi'', speaker_tag = 1, start_time = 0, end_time = 1\<rparr>] [] 1
     = Inr [\<lparr>seg_speaker = ''Speaker 1'', seg_start = 0, seg_end = 1, seg_text = ''hi''\<rparr>]
   \<and> join '' '' (map seg_text
         [\<lparr>seg_speaker = ''Speaker 1'', seg_start = 0, seg_end = 1, seg_text = ''hi''\<rparr>])
     \<noteq> join '' '' (map word
         [\<lparr>word = '' hi'', speaker_tag = 1, start_time = 0, end_time = 1\<rparr>])"
  by (simp add: build_segments_runs segment_of_run_def round2_0 round2_1 strip_def isspace_def
      str_int_def str_nat.simps digit_char_def)

subsection \<open>Rounding at emission\<close>

text \<open>
  A rounded value is not changed by rounding it again, and every segment built from a
  word list that is not empty holds rounded times (lines 132, 133, 150 and 151).
\<close>

lemma round2_idem: "round2 (round2 x) = round2 x"
proof -
  have "round2 x * 100 = of_int (round_half_even (x * 100))" by (simp add: round2_def)
  then have "round_half_even (round2 x * 100) = round_half_even (x * 100)"
    by (simp only: round_half_even_int)
  then show ?thesis by (simp add: round2_def)
qed

lemma word_segments_rounded:
  assumes "ws \<noteq> []" and "build_segments ws fb dur = Inr segs" and "s \<in> set segs"
  shows "round2 (seg_start s) = seg_start s \<and> round2 (seg_end s) = seg_end s"
  using assms by (auto simp: build_segments_runs segment_of_run_def round2_idem)

text \<open>
  C6. The fallback segment of line 106 takes the duration as it is, without the
  \<^verbatim>\<open>round\<close> of the other two emissions: for an empty word list and the duration
  12.3456 the segment ends at 12.3456, where \<^verbatim>\<open>round(12.3456, 2)\<close> is 12.35.
\<close>

theorem fallback_end_not_rounded:
  "build_segments [] ''hello'' (123456 / 10000)
     = Inr [\<lparr>seg_speaker = ''unknown'', seg_start = 0, seg_end = 123456 / 10000,
             seg_text = ''hello''\<rparr>]
   \<and> round2 (123456 / 10000) = 1235 / 100
   \<and> round2 (123456 / 10000) \<noteq> 123456 / 10000"
proof -
  have "build_segments [] ''hello'' (123456 / 10000)
     = Inr [\<lparr>seg_speaker = ''unknown'', seg_start = 0, seg_end = 123456 / 10000,
             seg_text = ''hello''\<rparr>]"
    by (simp add: build_segments_def strip_def isspace_def)
  moreover have "round2 (123456 / 10000) = 1235 / 100" by code_simp
  moreover have "round2 (123456 / 10000) \<noteq> 123456 / 10000" by code_simp
  ultimately show ?thesis by blast
qed

subsection \<open>The checks of the upload endpoint\<close>

text \<open>
  A file name passes \<^verbatim>\<open>allowed_file\<close> exactly when it has a dot and the text after its
  last dot, in lower case, is one of the four extensions; the check raises nothing.
\<close>

lemma rsplit1_split: "sep \<notin> set ext \<Longrightarrow> rsplit1 sep (stem @ sep # ext) = [stem, ext]"
proof -
  assume n: "sep \<notin> set ext"
  have r: "rev (stem @ sep # ext) = rev ext @ sep # rev stem" by simp
  have t: "takeWhile (\<lambda>c. c \<noteq> sep) (rev ext @ sep # rev stem) = rev ext"
    using n by (subst takeWhile_append2) auto
  have d: "dropWhile (\<lambda>c. c \<noteq> sep) (rev ext @ sep # rev stem) = sep # rev stem"
    using n by (subst dropWhile_append2) auto
  show ?thesis unfolding rsplit1_def r t d by simp
qed

lemma allowed_file_iff:
  "allowed_file fname =
     Inr (\<exists>stem ext. fname = stem @ ''.'' @ ext \<and> CHR ''.'' \<notin> set ext
            \<and> lower ext \<in> {''wav'', ''mp3'', ''flac'', ''m4a''})"
proof (cases "CHR ''.'' \<in> set fname")
  case True
  then obtain stem ext where f: "fname = stem @ CHR ''.'' # ext" and n: "CHR ''.'' \<notin> set ext"
    by (auto dest: split_list_last)
  have uniq: "stem' = stem \<and> ext' = ext"
    if "fname = stem' @ ''.'' @ ext'" and "CHR ''.'' \<notin> set ext'" for stem' ext'
  proof -
    from that have "rsplit1 (CHR ''.'') fname = [stem', ext']" by (simp add: rsplit1_split)
    moreover from f n have "rsplit1 (CHR ''.'') fname = [stem, ext]" by (simp add: rsplit1_split)
    ultimately show ?thesis by simp
  qed
  have "allowed_file fname = Inr (lower ext \<in> ALLOWED_EXTENSIONS)"
    using True f n by (simp add: allowed_file_def rsplit1_split py_index_def)
  moreover have "(\<exists>stem' ext'. fname = stem' @ ''.'' @ ext' \<and> CHR ''.'' \<notin> set ext'
            \<and> lower ext' \<in> {''wav'', ''mp3'', ''flac'', ''m4a''})
        = (lower ext \<in> ALLOWED_EXTENSIONS)"
  proof
    assume "\<exists>stem' ext'. fname = stem' @ ''.'' @ ext' \<and> CHR ''.'' \<notin> set ext'
            \<and> lower ext' \<in> {''wav'', ''mp3'', ''flac'', ''m4a''}"
    then obtain stem' ext' where a: "fname = stem' @ ''.'' @ ext'" and b: "CHR ''.'' \<notin> set ext'"
      and c: "lower ext' \<in> {''wav'', ''mp3'', ''flac'', ''m4a''}" by blast
    from uniq [OF a b] c show "lower ext \<in> ALLOWED_EXTENSIONS"
      by (simp add: ALLOWED_EXTENSIONS_def)
  next
    assume "lower ext \<in> ALLOWED_EXTENSIONS"
    then have "lower ext \<in> {''wav'', ''mp3'', ''flac'', ''m4a''}"
      by (simp add: ALLOWED_EXTENSIONS_def)
    moreover from f have "fname = stem @ ''.'' @ ext" by simp
    ultimately show "\<exists>stem' ext'. fname = stem' @ ''.'' @ ext' \<and> CHR ''.'' \<notin> set ext'
            \<and> lower ext' \<in> {''wav'', ''mp3'', ''flac'', ''m4a''}"
      using n by blast
  qed
  ultimately show ?thesis by simp
next
  case False
  then have "allowed_file fname = Inr False" by (simp add: allowed_file_def)
  moreover from False have "\<not> (\<exists>stem ext. fname = stem @ ''.'' @ ext \<and> CHR ''.'' \<notin> set ext
            \<and> lower ext \<in> {''wav'', ''mp3'', ''flac'', ''m4a''})"
    by auto
  ultimately show ?thesis by simp
qed


lemma allowed_file_song_xyz: "allowed_file ''song.xyz'' = Inr False"
  by (simp add: allowed_file_def rsplit1_def py_index_def lower_def lower_char_def
      ALLOWED_EXTENSIONS_def)

lemma allowed_file_a_wav: "allowed_file ''a.wav'' = Inr True"
  by (simp add: allowed_file_def rsplit1_def py_index_def lower_def lower_char_def
      ALLOWED_EXTENSIONS_def)


text \<open>
  C9. The endpoint answers 400 with \<^verbatim>\<open>No file part in request\<close> when the request has
  no file field, 400 with \<^verbatim>\<open>No file selected\<close> when the file name is empty, and 400
  with \<^verbatim>\<open>Unsupported file type\<close> when the file name has no extension among wav, mp3,
  flac and m4a (the extension is the text after the last dot, compared in lower case),
  as for the name \<^verbatim>\<open>song.xyz\<close>. In these three cases the answer does not depend on
  the save or on the pipeline. When all three checks pass, and only then, the answer is
  that of saving the file and processing it.
\<close>

theorem upload_validation:
  "(files req ''file'' = None \<longrightarrow>
      upload env req = Inr (ErrorBody ''No file part in request'', 400))
   \<and> (files req ''file'' = Some f \<and> filename f = [] \<longrightarrow>
      upload env req = Inr (ErrorBody ''No file selected'', 400))
   \<and> (files req ''file'' = Some f \<and> filename f \<noteq> []
        \<and> \<not> (\<exists>stem ext. filename f = stem @ ''.'' @ ext \<and> CHR ''.'' \<notin> set ext
                 \<and> lower ext \<in> {''wav'', ''mp3'', ''flac'', ''m4a''}) \<longrightarrow>
      upload env req = Inr (ErrorBody ''Unsupported file type'', 400))
   \<and> (files req ''file'' = Some f \<and> filename f = ''song.xyz'' \<longrightarrow>
      upload env req = Inr (ErrorBody ''Unsupported file type'', 400))
   \<and> (files req ''file'' = Some f \<and> filename f \<noteq> []
        \<and> (\<exists>stem ext. filename f = stem @ ''.'' @ ext \<and> CHR ''.'' \<notin> set ext
                 \<and> lower ext \<in> {''wav'', ''mp3'', ''flac'', ''m4a''}) \<longrightarrow>
      upload env req =
        (case save env f (path_join UPLOAD_FOLDER (filename f)) of
           Inl e \<Rightarrow> Inl e
         | Inr u \<Rightarrow>
            (case process_audio_with_diarization (normalize_and_recognize env)
                    (path_join UPLOAD_FOLDER (filename f)) of
               Inr segs \<Rightarrow> Inr (SegmentsBody segs, 200)
             | Inl e \<Rightarrow> Inr (ErrorBody (str_error e), 500))))"
proof (intro conjI impI)
  assume "files req ''file'' = None"
  then show "upload env req = Inr (ErrorBody ''No file part in request'', 400)"
    by (simp add: upload_def)
next
  assume "files req ''file'' = Some f \<and> filename f = []"
  then show "upload env req = Inr (ErrorBody ''No file selected'', 400)"
    by (simp add: upload_def)
next
  assume "files req ''file'' = Some f \<and> filename f \<noteq> []
        \<and> \<not> (\<exists>stem ext. filename f = stem @ ''.'' @ ext \<and> CHR ''.'' \<notin> set ext
                 \<and> lower ext \<in> {''wav'', ''mp3'', ''flac'', ''m4a''})"
  then have "files req ''file'' = Some f" and "filename f \<noteq> []"
    and "allowed_file (filename f) = Inr False"
    by (simp_all only: allowed_file_iff simp_thms)
  then show "upload env req = Inr (ErrorBody ''Unsupported file type'', 400)"
    by (simp add: upload_def)
next
  assume "files req ''file'' = Some f \<and> filename f = ''song.xyz''"
  then show "upload env req = Inr (ErrorBody ''Unsupported file type'', 400)"
    by (simp add: upload_def allowed_file_song_xyz)
next
  assume "files req ''file'' = Some f \<and> filename f \<noteq> []
        \<and> (\<exists>stem ext. filename f = stem @ ''.'' @ ext \<and> CHR ''.'' \<notin> set ext
                 \<and> lower ext \<in> {''wav'', ''mp3'', ''flac'', ''m4a''})"
  then have "files req ''file'' = Some f" and "filename f \<noteq> []"
    and "allowed_file (filename f) = Inr True"
    by (simp_all only: allowed_file_iff simp_thms)
  then show "upload env req =
        (case save env f (path_join UPLOAD_FOLDER (filename f)) of
           Inl e \<Rightarrow> Inl e
         | Inr u \<Rightarrow>
            (case process_audio_with_diarization (normalize_and_recognize env)
                    (path_join UPLOAD_FOLDER (filename f)) of
               Inr segs \<Rightarrow> Inr (SegmentsBody segs, 200)
             | Inl e \<Rightarrow> Inr (ErrorBody (str_error e), 500)))"
    by (simp add: upload_def Let_def)
qed

theorem upload_validation_witness:
  "upload \<lparr>save = (\<lambda>f p. Inr ()), normalize_and_recognize = (\<lambda>p. Inr (1, []))\<rparr>
      \<lparr>files = Map.empty\<rparr>
     = Inr (ErrorBody ''No file part in request'', 400)
   \<and> upload \<lparr>save = (\<lambda>f p. Inr ()), normalize_and_recognize = (\<lambda>p. Inr (1, []))\<rparr>
      \<lparr>files = [''file'' \<mapsto> \<lparr>filename = []\<rparr>]\<rparr>
     = Inr (ErrorBody ''No file selected'', 400)
   \<and> upload \<lparr>save = (\<lambda>f p. Inr ()), normalize_and_recognize = (\<lambda>p. Inr (1, []))\<rparr>
      \<lparr>files = [''file'' \<mapsto> \<lparr>filename = ''song.xyz''\<rparr>]\<rparr>
     = Inr (ErrorBody ''Unsupported file type'', 400)
   \<and> upload \<lparr>save = (\<lambda>f p. Inr ()), normalize_and_recognize = (\<lambda>p. Inr (1, []))\<rparr>
      \<lparr>files = [''file'' \<mapsto> \<lparr>filename = ''a.wav''\<rparr>]\<rparr>
     = Inr (SegmentsBody [], 200)"
proof -
  let ?env = "\<lparr>save = (\<lambda>f p. Inr ()), normalize_and_recognize = (\<lambda>p. Inr (1, []))\<rparr>"
  have bad: "\<not> (\<exists>stem ext. ''song.xyz'' = stem @ ''.'' @ ext \<and> CHR ''.'' \<notin> set ext
                 \<and> lower ext \<in> {''wav'', ''mp3'', ''flac'', ''m4a''})"
    using allowed_file_iff [of "''song.xyz''"] by (simp only: allowed_file_song_xyz sum.inject simp_thms)
  have good: "\<exists>stem ext. ''a.wav'' = stem @ ''.'' @ ext \<and> CHR ''.'' \<notin> set ext
                 \<and> lower ext \<in> {''wav'', ''mp3'', ''flac'', ''m4a''}"
    using allowed_file_iff [of "''a.wav''"] by (simp only: allowed_file_a_wav sum.inject simp_thms)
  have 1: "upload ?env \<lparr>files = Map.empty\<rparr> = Inr (ErrorBody ''No file part in request'', 400)"
    using upload_validation [of "\<lparr>files = Map.empty\<rparr>" ?env] by simp
  have 2: "upload ?env \<lparr>files = [''file'' \<mapsto> \<lparr>filename = []\<rparr>]\<rparr>
      = Inr (ErrorBody ''No file selected'', 400)"
    using upload_validation [of "\<lparr>files = [''file'' \<mapsto> \<lparr>filename = []\<rparr>]\<rparr>" ?env
        "\<lparr>filename = []\<rparr>"] by simp
  have 3: "upload ?env \<lparr>files = [''file'' \<mapsto> \<lparr>filename = ''song.xyz''\<rparr>]\<rparr>
      = Inr (ErrorBody ''Unsupported file type'', 400)"
    using upload_validation [of "\<lparr>files = [''file'' \<mapsto> \<lparr>filename = ''song.xyz''\<rparr>]\<rparr>" ?env
        "\<lparr>filename = ''song.xyz''\<rparr>"] bad by simp
  have 4: "upload ?env \<lparr>files = [''file'' \<mapsto> \<lparr>filename = ''a.wav''\<rparr>]\<rparr>
      = Inr (SegmentsBody [], 200)"
    using upload_validation [of "\<lparr>files = [''file'' \<mapsto> \<lparr>filename = ''a.wav''\<rparr>]\<rparr>" ?env
        "\<lparr>filename = ''a.wav''\<rparr>"] good
    by (simp add: process_audio_with_diarization_def)
  from 1 2 3 4 show ?thesis by simp
qed

text \<open>
  C8. When the recognition service returns no results, the pipeline returns the empty
  list of segments and raises nothing, and the endpoint, for a request that passes the
  checks and whose file is saved, answers 200 with an empty list of segments, not with
  an error.
\<close>

theorem empty_results:
  "(recognize input_path = Inr (d, []) \<longrightarrow>
      process_audio_with_diarization recognize input_path = Inr [])
   \<and> (files req ''file'' = Some f \<and> filename f \<noteq> []
        \<and> allowed_file (filename f) = Inr True
        \<and> save env f (path_join UPLOAD_FOLDER (filename f)) = Inr u
        \<and> normalize_and_recognize env (path_join UPLOAD_FOLDER (filename f)) = Inr (d, []) \<longrightarrow>
      upload env req = Inr (SegmentsBody [], 200))"
  by (simp add: process_audio_with_diarization_def upload_def Let_def)

theorem empty_results_witness:
  "process_audio_with_diarization (\<lambda>p. Inr (1, [])) ''uploads/a.wav'' = Inr []
   \<and> upload \<lparr>save = (\<lambda>f p. Inr ()), normalize_and_recognize = (\<lambda>p. Inr (1, []))\<rparr>
      \<lparr>files = [''file'' \<mapsto> \<lparr>filename = ''a.wav''\<rparr>]\<rparr>
     = Inr (SegmentsBody [], 200)"
  using empty_results [of "\<lambda>p. Inr (1, [])" "''uploads/a.wav''" 1
      "\<lparr>files = [''file'' \<mapsto> \<lparr>filename = ''a.wav''\<rparr>]\<rparr>" "\<lparr>filename = ''a.wav''\<rparr>"
      "\<lparr>save = (\<lambda>f p. Inr ()), normalize_and_recognize = (\<lambda>p. Inr (1, []))\<rparr>" "()"]
  by (simp add: allowed_file_a_wav)

end
